theory Spec2Isabelle
  imports Main
begin

section \<open>Go values used by the validator\<close>

text \<open>
  A Go string is a sequence of bytes, which is what \<open>string\<close> (a list of 8-bit
  \<open>char\<close>) is. A Go slice is either \<open>nil\<close> or a sequence of elements; the
  two are told apart by \<open>isVerifiable\<close>, so a slice is an optional list with
  \<open>None\<close> for \<open>nil\<close>. A Go map is a partial function; the order in which
  \<open>range\<close> visits its keys is chosen by the runtime and is a parameter of every
  loop over a map.
\<close>

type_synonym 'a slice = "'a list option"

definition len :: "'a slice \<Rightarrow> nat" where
  "len s = (case s of None \<Rightarrow> 0 | Some xs \<Rightarrow> length xs)"

text \<open>\<open>strings.Split(s, sep)\<close> for a separator of one byte.\<close>

fun Split :: "string \<Rightarrow> char \<Rightarrow> string list" where
  "Split [] sep = [[]]"
| "Split (c # s) sep =
     (if c = sep then [] # Split s sep
      else (case Split s sep of [] \<Rightarrow> [[c]] | p # ps \<Rightarrow> (c # p) # ps))"

text \<open>\<open>strings.Contains(s, sep)\<close> for a separator of one byte.\<close>

definition Contains :: "string \<Rightarrow> char \<Rightarrow> bool" where
  "Contains s sep = (sep \<in> set s)"

text \<open>
  \<open>strings.ToUpper\<close> applied to a string of exactly one byte, the only way
  \<open>ucfirst\<close> calls it: an ASCII lower-case letter loses 32, any other ASCII byte
  stays, and a byte from 128 on is not valid UTF-8 on its own, so it is replaced by the
  encoding of U+FFFD.
\<close>

definition ToUpper :: "char \<Rightarrow> string" where
  "ToUpper c =
     (let n = (of_char c :: nat) in
      if 97 \<le> n \<and> n \<le> 122 then [char_of (n - 32)]
      else if n < 128 then [c]
      else [CHR 0xEF, CHR 0xBF, CHR 0xBD])"

text \<open>
  The entries \<open>range\<close> visits when it walks map \<open>m\<close> in key order \<open>ks\<close>, and
  the orders the runtime may choose: every key of the map, once.
\<close>

definition range_map :: "('k \<rightharpoonup> 'v) \<Rightarrow> 'k list \<Rightarrow> ('k \<times> 'v) list" where
  "range_map m ks = List.map_filter (\<lambda>k. map_option (Pair k) (m k)) ks"

definition range_order :: "('k \<rightharpoonup> 'v) \<Rightarrow> 'k list \<Rightarrow> bool" where
  "range_order m ks = (distinct ks \<and> set ks = dom m)"

text \<open>The Go expression \<open>m[key]\<close> on a map of slices: \<open>nil\<close> when the key is missing.\<close>

definition index_slice :: "('k \<rightharpoonup> 'a slice) \<Rightarrow> 'k \<Rightarrow> 'a slice" where
  "index_slice m key = (case m key of None \<Rightarrow> None | Some s \<Rightarrow> s)"

section \<open>Panics\<close>

datatype panic =
    NilDereference          \<comment> \<open>\<open>reflect.TypeOf(nil).String()\<close> in \<open>formatRules\<close>\<close>
  | UnsupportedRules        \<comment> \<open>"the rules only support map[string][]string or map[string]string"\<close>
  | RulesMissing            \<comment> \<open>the panic of \<open>missingCheck\<close> on an empty rule map\<close>
  | RuleNotExist string     \<comment> \<open>the message: ruleName + "the valid rule not exist"\<close>
  | SliceBounds             \<comment> \<open>\<open>str[0:1]\<close> on the empty string in \<open>ucfirst\<close>\<close>
  | IndexOutOfRange         \<comment> \<open>\<open>v.ValidErrors[0]\<close> on an empty slice\<close>

section \<open>The rule registry\<close>

text \<open>
  A predicate of package \<open>rules\<close> takes the field's values and the parameter. The
  package is not part of the engine: \<open>rules_pkg\<close> gives the predicate exported under
  each name and is a parameter of everything below.
\<close>

type_synonym predicate = "string slice \<Rightarrow> string \<Rightarrow> bool"

definition registry_names :: "string list" where
  "registry_names =
     [''Required'', ''Min'', ''Max'', ''Regex'', ''Int'', ''Numeric'', ''Nullable'',
      ''Email'', ''Url'', ''Mobile'', ''In'', ''Lt'', ''Lte'', ''Gt'', ''Gte'']"

definition validateMap :: "(string \<Rightarrow> predicate) \<Rightarrow> string \<rightharpoonup> predicate" where
  "validateMap rules_pkg name =
     (if name \<in> set registry_names then Some (rules_pkg name) else None)"

section \<open>The validator\<close>

record ValidError =
  Field' :: string
  Errors :: "string \<rightharpoonup> string"

type_synonym CustomMsgElem = "string \<rightharpoonup> string"

record Validator =
  data :: "string \<rightharpoonup> string slice"
  rules :: "string \<rightharpoonup> string list"
  customMsg :: "(string \<rightharpoonup> CustomMsgElem) option"
  ValidErrors :: "ValidError slice"

text \<open>A call of a registry predicate: the field, the registry key, and both arguments.\<close>

datatype dispatch = Dispatch string string "string slice" string

text \<open>
  The \<open>rules\<close> argument of \<open>New\<close> has type \<open>interface{}\<close>: a value of one of the
  three map types \<open>formatRules\<close> names, the nil interface, or a value of another type.
  An element of a \<open>map[string]interface{}\<close> is a string, a \<open>[]string\<close> or anything
  else.
\<close>

datatype dyn = DynString string | DynStrings "string list" | DynOther

datatype rules_arg =
    MapStrings "string \<rightharpoonup> string list"    \<comment> \<open>\<open>map[string][]string\<close>\<close>
  | MapString "string \<rightharpoonup> string"          \<comment> \<open>\<open>map[string]string\<close>\<close>
  | MapInterface "string \<rightharpoonup> dyn"          \<comment> \<open>\<open>map[string]interface {}\<close>\<close>
  | NilInterface
  | OtherType

text \<open>The key orders the runtime chooses for the four loops over maps.\<close>

record orders =
  missing_order :: "string list"    \<comment> \<open>\<open>range rules\<close> in \<open>missingCheck\<close>\<close>
  message_order :: "string list"    \<comment> \<open>\<open>range message\<close> in \<open>parseMessage\<close>\<close>
  run_order :: "string list"        \<comment> \<open>\<open>range v.rules\<close> in \<open>run\<close>\<close>
  errors_order :: "string list"     \<comment> \<open>\<open>range err.Errors\<close> in \<open>run\<close>\<close>

subsection \<open>Helpers\<close>

definition ucfirst :: "string \<Rightarrow> panic + string" where
  "ucfirst str = (case str of [] \<Rightarrow> Inl SliceBounds | c # rest \<Rightarrow> Inr (ToUpper c @ rest))"

fun inArray :: "string list \<Rightarrow> string \<Rightarrow> bool" where
  "inArray [] elem = False"
| "inArray (val # arr) elem = (if elem = val then True else inArray arr elem)"

subsection \<open>formatRules\<close>

text \<open>
  Each key of the argument gets its token list; the result does not depend on the order
  of \<open>MapKeys\<close>. An interface element that is neither a string nor a \<open>[]string\<close>
  fails both type assertions and leaves no entry.
\<close>

definition formatRules :: "rules_arg \<Rightarrow> panic + (string \<rightharpoonup> string list)" where
  "formatRules rs =
     (case rs of
        NilInterface \<Rightarrow> Inl NilDereference
      | OtherType \<Rightarrow> Inl UnsupportedRules
      | MapString m \<Rightarrow> Inr (\<lambda>key. map_option (\<lambda>s. Split s CHR ''|'') (m key))
      | MapStrings m \<Rightarrow> Inr m
      | MapInterface m \<Rightarrow>
          Inr (\<lambda>key. case m key of
                       None \<Rightarrow> None
                     | Some (DynString s) \<Rightarrow> Some (Split s CHR ''|'')
                     | Some (DynStrings a) \<Rightarrow> Some a
                     | Some DynOther \<Rightarrow> None))"

subsection \<open>Recording errors\<close>

fun existError_from :: "ValidError list \<Rightarrow> string \<Rightarrow> int \<Rightarrow> int" where
  "existError_from [] field key = - 1"
| "existError_from (item # rest) field key =
     (if Field' item = field then key else existError_from rest field (key + 1))"

definition existError :: "Validator \<Rightarrow> string \<Rightarrow> int" where
  "existError v field =
     existError_from (case ValidErrors v of None \<Rightarrow> [] | Some errs \<Rightarrow> errs) field 0"

definition insertError :: "Validator \<Rightarrow> string \<Rightarrow> string \<Rightarrow> string \<Rightarrow> string \<Rightarrow> Validator" where
  "insertError v key field msg rule =
     (case ValidErrors v of
        None \<Rightarrow> v\<lparr>ValidErrors := Some [\<lparr>Field' = field, Errors = [key \<mapsto> msg]\<rparr>]\<rparr>
      | Some errs \<Rightarrow>
          (let index = existError v field in
           if index \<ge> 0 then
             v\<lparr>ValidErrors :=
                 Some (errs[nat index :=
                   (errs ! nat index)\<lparr>Errors := (Errors (errs ! nat index))(key \<mapsto> msg)\<rparr>])\<rparr>
           else
             v\<lparr>ValidErrors := Some (errs @ [\<lparr>Field' = field, Errors = [key \<mapsto> msg]\<rparr>])\<rparr>))"

definition notExistCustomInsert :: "Validator \<Rightarrow> string \<Rightarrow> string \<Rightarrow> Validator" where
  "notExistCustomInsert v field rule =
     insertError v rule field (''the field '' @ field @ '' not valid in '' @ rule) rule"

definition addErrors :: "Validator \<Rightarrow> string \<Rightarrow> string \<Rightarrow> string slice \<Rightarrow> Validator" where
  "addErrors v field rule val =
     (case (case customMsg v of None \<Rightarrow> None | Some cm \<Rightarrow> cm field) of
        Some custom \<Rightarrow>
          (let v1 = (case custom ''def'' of
                       Some msg \<Rightarrow> insertError v ''def'' field msg rule
                     | None \<Rightarrow> v)
           in case custom rule of
                None \<Rightarrow> notExistCustomInsert v1 field rule
              | Some fieldMsg \<Rightarrow> insertError v1 rule field fieldMsg rule)
      | None \<Rightarrow> notExistCustomInsert v field rule)"

subsection \<open>Rule evaluation\<close>

definition isVerifiable :: "Validator \<Rightarrow> string \<Rightarrow> string list \<Rightarrow> bool" where
  "isVerifiable v key rs =
     (if inArray rs ''nullable'' then
        (case data v key of
           None \<Rightarrow> False
         | Some None \<Rightarrow> True
         | Some (Some rule) \<Rightarrow> list_ex (\<lambda>ruleItem. length ruleItem > 0) rule)
      else True)"

text \<open>The rule name and the parameter of a token (the first lines of the loop of \<open>parse\<close>).\<close>

definition rule_parts :: "string \<Rightarrow> string \<times> string" where
  "rule_parts rule =
     (let flagIndex = Split rule CHR '':'' in
      if length flagIndex > 1 then (flagIndex ! 0, flagIndex ! 1) else (rule, ''''))"

text \<open>
  One round of the loop of \<open>parse\<close>: the validator after the round, or the panic that
  ends the run, together with the predicate calls the round made.
\<close>

definition parse_rule ::
  "(string \<Rightarrow> predicate) \<Rightarrow> Validator \<Rightarrow> string \<Rightarrow> string list \<Rightarrow> string
     \<Rightarrow> (panic + Validator) \<times> dispatch list" where
  "parse_rule rules_pkg v key rs rule =
     (case rule_parts rule of (ruleName, param) \<Rightarrow>
        (case ucfirst ruleName of
           Inl p \<Rightarrow> (Inl p, [])
         | Inr name \<Rightarrow>
             (case validateMap rules_pkg name of
                None \<Rightarrow> (Inl (RuleNotExist (ruleName @ ''the valid rule not exist'')), [])
              | Some dynamicFunc \<Rightarrow>
                  if isVerifiable v key rs then
                    (let val = index_slice (data v) key;
                         ok = dynamicFunc val param
                     in (Inr (if \<not> ok then addErrors v key ruleName val else v),
                         [Dispatch key name val param]))
                  else (Inr v, []))))"

fun parse_loop ::
  "(string \<Rightarrow> predicate) \<Rightarrow> Validator \<Rightarrow> string \<Rightarrow> string list \<Rightarrow> string list
     \<Rightarrow> (panic + Validator) \<times> dispatch list" where
  "parse_loop rules_pkg v key rs [] = (Inr v, [])"
| "parse_loop rules_pkg v key rs (rule # rest) =
     (case parse_rule rules_pkg v key rs rule of
        (Inl p, calls) \<Rightarrow> (Inl p, calls)
      | (Inr v', calls) \<Rightarrow>
          (case parse_loop rules_pkg v' key rs rest of (r, calls') \<Rightarrow> (r, calls @ calls')))"

definition parse ::
  "(string \<Rightarrow> predicate) \<Rightarrow> Validator \<Rightarrow> string \<Rightarrow> string list
     \<Rightarrow> (panic + Validator) \<times> dispatch list" where
  "parse rules_pkg v key rs = parse_loop rules_pkg v key rs rs"

fun run_loop ::
  "(string \<Rightarrow> predicate) \<Rightarrow> Validator \<Rightarrow> (string \<times> string list) list
     \<Rightarrow> (panic + Validator) \<times> dispatch list" where
  "run_loop rules_pkg v [] = (Inr v, [])"
| "run_loop rules_pkg v ((key, item) # rest) =
     (case parse rules_pkg v key item of
        (Inl p, calls) \<Rightarrow> (Inl p, calls)
      | (Inr v', calls) \<Rightarrow>
          (case run_loop rules_pkg v' rest of (r, calls') \<Rightarrow> (r, calls @ calls')))"

text \<open>
  The result of a run that does not panic is the validator and the error returned
  beside it, \<open>None\<close> for \<open>nil\<close> and otherwise the message of the error.
\<close>

definition run ::
  "(string \<Rightarrow> predicate) \<Rightarrow> orders \<Rightarrow> Validator
     \<Rightarrow> (panic + Validator \<times> string option) \<times> dispatch list" where
  "run rules_pkg ord v =
     (case run_loop rules_pkg v (range_map (rules v) (run_order ord)) of
        (Inl p, calls) \<Rightarrow> (Inl p, calls)
      | (Inr v', calls) \<Rightarrow>
          (if ValidErrors v' \<noteq> None \<or> len (ValidErrors v') > 0 then
             (case ValidErrors v' of
                Some (err # _) \<Rightarrow>
                  (case Errors err ''def'' of
                     Some val \<Rightarrow> Inr (v', Some val)
                   | None \<Rightarrow>
                       (case range_map (Errors err) (errors_order ord) of
                          (_, item) # _ \<Rightarrow> Inr (v', Some item)
                        | [] \<Rightarrow> Inr (v', Some '''')))
              | _ \<Rightarrow> Inl IndexOutOfRange)
           else Inr (v', None),
           calls))"

subsection \<open>Custom messages\<close>

definition addMessage :: "Validator \<Rightarrow> string \<Rightarrow> string \<Rightarrow> string \<Rightarrow> Validator" where
  "addMessage v field rule message =
     (let key = (if length rule > 0 then rule else ''def'') in
      case customMsg v of
        None \<Rightarrow> v\<lparr>customMsg := Some [field \<mapsto> [key \<mapsto> message]]\<rparr>
      | Some cm \<Rightarrow>
          (case cm field of
             Some elem \<Rightarrow> v\<lparr>customMsg := Some (cm(field \<mapsto> elem(key \<mapsto> message)))\<rparr>
           | None \<Rightarrow> v\<lparr>customMsg := Some (cm(field \<mapsto> [key \<mapsto> message]))\<rparr>))"

fun parseMessage_loop ::
  "(string \<Rightarrow> predicate) \<Rightarrow> Validator \<Rightarrow> (string \<times> string) list \<Rightarrow> panic + Validator" where
  "parseMessage_loop rules_pkg v [] = Inr v"
| "parseMessage_loop rules_pkg v ((key, item) # rest) =
     (if Contains key CHR ''.'' then
        (let itemArr = Split key CHR ''.'';
             field = itemArr ! 0;
             rule = itemArr ! 1;
             ok = (data v field \<noteq> None)
         in case ucfirst rule of
              Inl p \<Rightarrow> Inl p
            | Inr name \<Rightarrow>
                if validateMap rules_pkg name \<noteq> None \<and> ok
                then parseMessage_loop rules_pkg (addMessage v field rule item) rest
                else parseMessage_loop rules_pkg v rest)
      else
        (if data v key \<noteq> None
         then parseMessage_loop rules_pkg (addMessage v key '''' item) rest
         else parseMessage_loop rules_pkg v rest))"

definition parseMessage ::
  "(string \<Rightarrow> predicate) \<Rightarrow> Validator \<Rightarrow> (string \<rightharpoonup> string) \<Rightarrow> string list
     \<Rightarrow> panic + Validator" where
  "parseMessage rules_pkg v message ks =
     (if message = Map.empty then Inr v
      else parseMessage_loop rules_pkg v (range_map message ks))"

subsection \<open>The presence check and the entry point\<close>

fun missingCheck_loop ::
  "Validator \<Rightarrow> (string \<rightharpoonup> string slice) \<Rightarrow> (string \<times> string list) list \<Rightarrow> Validator" where
  "missingCheck_loop v d [] = v"
| "missingCheck_loop v d ((key, item) # rest) =
     (if \<not> inArray item ''nullable'' \<and> d key = None
      then missingCheck_loop
             (insertError v ''def'' key (''the param '' @ key @ '' not valid!'') ''no'') d rest
      else missingCheck_loop v d rest)"

definition missingCheck ::
  "Validator \<Rightarrow> (string \<rightharpoonup> string slice) \<Rightarrow> (string \<rightharpoonup> string list) \<Rightarrow> string list
     \<Rightarrow> panic + Validator \<times> bool" where
  "missingCheck v d rs ks =
     (if rs = Map.empty then Inl RulesMissing
      else (let v' = missingCheck_loop v d (range_map rs ks)
            in Inr (v', ValidErrors v' = None \<or> len (ValidErrors v') \<le> 0)))"

definition New ::
  "(string \<Rightarrow> predicate) \<Rightarrow> orders \<Rightarrow> (string \<rightharpoonup> string slice) \<Rightarrow> rules_arg
     \<Rightarrow> (string \<rightharpoonup> string) list
     \<Rightarrow> (panic + Validator \<times> string option) \<times> dispatch list" where
  "New rules_pkg ord d rs args =
     (let message = (if length args > 0 then args ! 0 else Map.empty) in
      case formatRules rs of
        Inl p \<Rightarrow> (Inl p, [])
      | Inr fmtRules \<Rightarrow>
          (let validator = \<lparr>data = d, rules = fmtRules, customMsg = None, ValidErrors = None\<rparr>
           in case missingCheck validator d fmtRules (missing_order ord) of
                Inl p \<Rightarrow> (Inl p, [])
              | Inr (validator1, ok) \<Rightarrow>
                  if \<not> ok then
                    (case ValidErrors validator1 of
                       Some (err # _) \<Rightarrow>
                         (Inr (validator1,
                               Some (case Errors err ''def'' of
                                       Some val \<Rightarrow> val
                                     | None \<Rightarrow> ''missing valid error'')), [])
                     | _ \<Rightarrow> (Inl IndexOutOfRange, []))
                  else
                    (case parseMessage rules_pkg validator1 message (message_order ord) of
                       Inl p \<Rightarrow> (Inl p, [])
                     | Inr validator2 \<Rightarrow> run rules_pkg ord validator2)))"

section \<open>Observations used in the statements\<close>

text \<open>
  The entries of the error list (none for the \<open>nil\<close> slice), the field names of the
  entries in order, and the message a field's first entry holds under a key.
\<close>

definition entries :: "Validator \<Rightarrow> ValidError list" where
  "entries v = (case ValidErrors v of None \<Rightarrow> [] | Some errs \<Rightarrow> errs)"

definition fields :: "Validator \<Rightarrow> string list" where
  "fields v = map Field' (entries v)"

definition recorded :: "Validator \<Rightarrow> string \<Rightarrow> string \<Rightarrow> string option" where
  "recorded v field key =
     (case find (\<lambda>e. Field' e = field) (entries v) of
        None \<Rightarrow> None
      | Some e \<Rightarrow> Errors e key)"

text \<open>The upper-case form of an ASCII byte: a lower-case letter loses 32.\<close>

definition ascii_upper :: "char \<Rightarrow> char" where
  "ascii_upper c =
     (if 97 \<le> (of_char c :: nat) \<and> (of_char c :: nat) \<le> 122
      then char_of ((of_char c :: nat) - 32) else c)"

text \<open>
  A token resolves when the lookup \<open>validateMap[ucfirst(ruleName)]\<close> of \<open>parse\<close>
  succeeds; it passes for a field when the predicate found returns \<open>true\<close> on the
  field's values and the token's parameter; \<open>token_panic\<close> is the panic of \<open>parse\<close>
  on a token that does not resolve.
\<close>

definition resolves :: "string \<Rightarrow> bool" where
  "resolves rule =
     (case ucfirst (fst (rule_parts rule)) of
        Inl p \<Rightarrow> False
      | Inr name \<Rightarrow> name \<in> set registry_names)"

definition token_passes ::
  "(string \<Rightarrow> predicate) \<Rightarrow> (string \<rightharpoonup> string slice) \<Rightarrow> string \<Rightarrow> string \<Rightarrow> bool" where
  "token_passes rules_pkg d key rule =
     (case ucfirst (fst (rule_parts rule)) of
        Inl p \<Rightarrow> False
      | Inr name \<Rightarrow> rules_pkg name (index_slice d key) (snd (rule_parts rule)))"

definition token_panic :: "string \<Rightarrow> panic" where
  "token_panic rule =
     (if fst (rule_parts rule) = [] then SliceBounds
      else RuleNotExist (fst (rule_parts rule) @ ''the valid rule not exist''))"

text \<open>
  \<open>extends K v v'\<close>: \<open>v'\<close> is \<open>v\<close> with more errors, all of fields of \<open>K\<close>, and
  no field has two entries in \<open>v'\<close> unless one has in \<open>v\<close>.
\<close>

definition extends :: "string set \<Rightarrow> Validator \<Rightarrow> Validator \<Rightarrow> bool" where
  "extends K v v' =
     (data v' = data v \<and> rules v' = rules v \<and> customMsg v' = customMsg v \<and>
      set (fields v') \<subseteq> set (fields v) \<union> K \<and>
      (distinct (fields v) \<longrightarrow> distinct (fields v')))"

text \<open>
  The entry \<open>missingCheck\<close> records for a field, the fields it records one for (a rule
  without the token \<open>nullable\<close>, no value in the data), and the message keys on which
  \<open>parseMessage\<close> calls \<open>ucfirst\<close> with the empty string.
\<close>

definition missing_entry :: "string \<Rightarrow> ValidError" where
  "missing_entry field =
     \<lparr>Field' = field, Errors = [''def'' \<mapsto> ''the param '' @ field @ '' not valid!'']\<rparr>"

definition is_missing ::
  "(string \<rightharpoonup> string slice) \<Rightarrow> (string \<rightharpoonup> string list) \<Rightarrow> string \<Rightarrow> bool" where
  "is_missing d rs field =
     (case rs field of None \<Rightarrow> False | Some item \<Rightarrow> ''nullable'' \<notin> set item \<and> d field = None)"

definition bad_message_key :: "string \<Rightarrow> bool" where
  "bad_message_key key = (Contains key CHR ''.'' \<and> Split key CHR ''.'' ! 1 = [])"

text \<open>The message table \<open>New\<close> reads from its variadic argument.\<close>

definition message_arg :: "(string \<rightharpoonup> string) list \<Rightarrow> string \<rightharpoonup> string" where
  "message_arg args = (if length args > 0 then args ! 0 else Map.empty)"

text \<open>The validator \<open>New\<close> builds before the presence check.\<close>

definition initial :: "(string \<rightharpoonup> string slice) \<Rightarrow> (string \<rightharpoonup> string list) \<Rightarrow> Validator" where
  "initial d fmtRules = \<lparr>data = d, rules = fmtRules, customMsg = None, ValidErrors = None\<rparr>"

section \<open>Recording errors: lemmas\<close>

lemma inArray_set: "inArray arr elem = (elem \<in> set arr)"
  by (induction arr) auto

lemma ToUpper_m: "ToUpper CHR ''m'' = ''M''"
  by (simp add: ToUpper_def char_of_eq_iff)

lemma existError_from_none:
  "field \<notin> Field' ` set errs \<Longrightarrow> existError_from errs field k = - 1"
  by (induction errs arbitrary: k) auto

lemma existError_from_some:
  "field \<in> Field' ` set errs \<Longrightarrow> 0 \<le> k \<Longrightarrow>
     k \<le> existError_from errs field k \<and>
     nat (existError_from errs field k - k) < length errs \<and>
     Field' (errs ! nat (existError_from errs field k - k)) = field"
proof (induction errs arbitrary: k)
  case Nil
  then show ?case by simp
next
  case (Cons item rest)
  show ?case
  proof (cases "Field' item = field")
    case True
    then show ?thesis by simp
  next
    case False
    with Cons.prems have mem: "field \<in> Field' ` set rest" by auto
    from Cons.prems have k1: "0 \<le> k + 1" by simp
    define j where "j = existError_from rest field (k + 1)"
    from Cons.IH [OF mem k1] have ih: "k + 1 \<le> j" "nat (j - (k + 1)) < length rest"
      "Field' (rest ! nat (j - (k + 1))) = field"
      by (simp_all add: j_def)
    from ih(1) have suc: "nat (j - k) = Suc (nat (j - (k + 1)))" by linarith
    from False have "existError_from (item # rest) field k = j" by (simp add: j_def)
    with ih suc show ?thesis by simp
  qed
qed

lemma existError_absent:
  "field \<notin> set (fields v) \<Longrightarrow> existError v field = - 1"
  by (simp add: existError_def fields_def entries_def existError_from_none)

lemma existError_present:
  assumes "field \<in> set (fields v)"
  shows "0 \<le> existError v field"
    and "nat (existError v field) < length (entries v)"
    and "Field' (entries v ! nat (existError v field)) = field"
  using existError_from_some [of field "entries v" 0] assms
  by (simp_all add: existError_def fields_def entries_def)

lemma entries_insertError_absent:
  "field \<notin> set (fields v) \<Longrightarrow>
     ValidErrors (insertError v key field msg rule) =
       Some (entries v @ [\<lparr>Field' = field, Errors = [key \<mapsto> msg]\<rparr>])"
  by (cases "ValidErrors v") (simp_all add: insertError_def entries_def existError_absent)

lemma entries_insertError_present:
  "field \<in> set (fields v) \<Longrightarrow>
     ValidErrors (insertError v key field msg rule) =
       Some ((entries v)[nat (existError v field) :=
          (entries v ! nat (existError v field))
            \<lparr>Errors := (Errors (entries v ! nat (existError v field)))(key \<mapsto> msg)\<rparr>])"
  using existError_present(1) [of field v]
  by (cases "ValidErrors v") (auto simp: insertError_def entries_def fields_def Let_def)

lemma fields_insertError:
  "fields (insertError v key field msg rule) =
     (if field \<in> set (fields v) then fields v else fields v @ [field])"
proof (cases "field \<in> set (fields v)")
  case True
  have "map Field' ((entries v)[nat (existError v field) :=
          (entries v ! nat (existError v field))
            \<lparr>Errors := (Errors (entries v ! nat (existError v field)))(key \<mapsto> msg)\<rparr>])
        = map Field' (entries v)"
    by (simp add: map_update list_update_same_conv existError_present(2) [OF True])
  with True show ?thesis
    using entries_insertError_present [OF True, of key msg rule]
    by (simp add: fields_def entries_def)
next
  case False
  then show ?thesis
    using entries_insertError_absent [OF False, of key msg rule]
    by (simp add: fields_def entries_def)
qed

lemma insertError_frame [simp]:
  "data (insertError v key field msg rule) = data v"
  "rules (insertError v key field msg rule) = rules v"
  "customMsg (insertError v key field msg rule) = customMsg v"
  by (auto simp: insertError_def Let_def split: option.splits)

lemma insertError_nonempty:
  "\<exists>e es. ValidErrors (insertError v key field msg rule) = Some (e # es)"
proof (cases "field \<in> set (fields v)")
  case True
  then have "entries v \<noteq> []" by (auto simp: fields_def)
  then show ?thesis
    using entries_insertError_present [OF True, of key msg rule]
    by (cases "(entries v)[nat (existError v field) :=
          (entries v ! nat (existError v field))
            \<lparr>Errors := (Errors (entries v ! nat (existError v field)))(key \<mapsto> msg)\<rparr>]") auto
next
  case False
  then show ?thesis
    using entries_insertError_absent [OF False, of key msg rule]
    by (cases "entries v") auto
qed

lemma find_existError_from:
  "field \<in> Field' ` set es \<Longrightarrow> 0 \<le> k \<Longrightarrow>
     find (\<lambda>e. Field' e = field) es = Some (es ! nat (existError_from es field k - k))"
proof (induction es arbitrary: k)
  case Nil
  then show ?case by simp
next
  case (Cons item rest)
  show ?case
  proof (cases "Field' item = field")
    case True
    then show ?thesis by simp
  next
    case False
    with Cons.prems have mem: "field \<in> Field' ` set rest" by auto
    from Cons.prems have k1: "0 \<le> k + 1" by simp
    define j where "j = existError_from rest field (k + 1)"
    from existError_from_some [OF mem k1] have "k + 1 \<le> j" by (simp add: j_def)
    then have suc: "nat (j - k) = Suc (nat (j - (k + 1)))" by linarith
    from Cons.IH [OF mem k1] False suc show ?thesis by (simp add: j_def)
  qed
qed

lemma find_update_first:
  "field \<in> Field' ` set es \<Longrightarrow> 0 \<le> k \<Longrightarrow> Field' e' = field \<Longrightarrow>
     find (\<lambda>e. Field' e = f) (es[nat (existError_from es field k - k) := e']) =
       (if f = field then Some e' else find (\<lambda>e. Field' e = f) es)"
proof (induction es arbitrary: k)
  case Nil
  then show ?case by simp
next
  case (Cons item rest)
  show ?case
  proof (cases "Field' item = field")
    case True
    with Cons.prems(3) show ?thesis by auto
  next
    case False
    with Cons.prems have mem: "field \<in> Field' ` set rest" by auto
    from Cons.prems have k1: "0 \<le> k + 1" by simp
    define j where "j = existError_from rest field (k + 1)"
    from existError_from_some [OF mem k1] have "k + 1 \<le> j" by (simp add: j_def)
    then have suc: "nat (j - k) = Suc (nat (j - (k + 1)))" by linarith
    from Cons.IH [OF mem k1 Cons.prems(3)] False suc show ?thesis by (auto simp: j_def)
  qed
qed

lemma find_app:
  "find P (xs @ ys) = (case find P xs of None \<Rightarrow> find P ys | Some x \<Rightarrow> Some x)"
  by (induction xs) auto

lemma find_absent: "field \<notin> Field' ` set es \<Longrightarrow> find (\<lambda>e. Field' e = field) es = None"
  by (induction es) auto

lemma recorded_insertError:
  "recorded (insertError v key field msg rule) f k =
     (if f = field \<and> k = key then Some msg else recorded v f k)"
proof (cases "field \<in> set (fields v)")
  case True
  then have mem: "field \<in> Field' ` set (entries v)" by (simp add: fields_def)
  let ?i = "nat (existError v field)"
  let ?e' = "(entries v ! ?i)\<lparr>Errors := (Errors (entries v ! ?i))(key \<mapsto> msg)\<rparr>"
  have i: "?i = nat (existError_from (entries v) field 0 - 0)"
    by (simp add: existError_def entries_def)
  have fe: "Field' ?e' = field" using existError_present(3) [OF True] by simp
  have old: "find (\<lambda>e. Field' e = field) (entries v) = Some (entries v ! ?i)"
    using find_existError_from [OF mem, of 0] i by simp
  have new: "find (\<lambda>e. Field' e = f) ((entries v)[?i := ?e']) =
       (if f = field then Some ?e' else find (\<lambda>e. Field' e = f) (entries v))"
    using find_update_first [OF mem _ fe, of 0 f] i by simp
  have ent: "entries (insertError v key field msg rule) = (entries v)[?i := ?e']"
    using entries_insertError_present [OF True, of key msg rule] by (simp add: entries_def)
  show ?thesis
    by (simp add: recorded_def ent new old)
next
  case False
  then have nomem: "field \<notin> Field' ` set (entries v)" by (simp add: fields_def)
  have ent: "entries (insertError v key field msg rule) =
      entries v @ [\<lparr>Field' = field, Errors = [key \<mapsto> msg]\<rparr>]"
    using entries_insertError_absent [OF False, of key msg rule] by (simp add: entries_def)
  show ?thesis
    by (auto simp: recorded_def ent find_app find_absent [OF nomem] split: option.splits)
qed

lemma fields_notExistCustomInsert:
  "fields (notExistCustomInsert v field rule) =
     (if field \<in> set (fields v) then fields v else fields v @ [field])"
  by (simp add: notExistCustomInsert_def fields_insertError)

lemma fields_addErrors:
  "fields (addErrors v field rule val) =
     (if field \<in> set (fields v) then fields v else fields v @ [field])"
  by (auto simp: addErrors_def notExistCustomInsert_def fields_insertError Let_def
           split: option.splits)

lemma addErrors_frame [simp]:
  "data (addErrors v field rule val) = data v"
  "rules (addErrors v field rule val) = rules v"
  "customMsg (addErrors v field rule val) = customMsg v"
  by (auto simp: addErrors_def notExistCustomInsert_def Let_def split: option.splits)

lemma addErrors_nonempty:
  "\<exists>e es. ValidErrors (addErrors v field rule val) = Some (e # es)"
  by (auto simp: addErrors_def notExistCustomInsert_def Let_def insertError_nonempty
           split: option.splits)

lemma recorded_addErrors_def_override:
  assumes "customMsg v = Some cm" and "cm field = Some custom" and "custom ''def'' = Some msg"
  shows "recorded (addErrors v field rule val) field ''def'' = Some msg \<and>
         recorded (addErrors v field rule val) field rule =
           Some (case custom rule of
                   Some fieldMsg \<Rightarrow> fieldMsg
                 | None \<Rightarrow> ''the field '' @ field @ '' not valid in '' @ rule)"
  using assms
  by (auto simp: addErrors_def notExistCustomInsert_def recorded_insertError Let_def
           split: option.splits)

lemma single_entry:
  "distinct (map Field' es) \<Longrightarrow> field \<in> Field' ` set es \<Longrightarrow>
     length (filter (\<lambda>e. Field' e = field) es) = 1"
proof (induction es)
  case Nil
  then show ?case by simp
next
  case (Cons a es)
  show ?case
  proof (cases "Field' a = field")
    case True
    with Cons.prems(1) have "\<forall>x\<in>set es. Field' x \<noteq> field" by (metis distinct.simps(2) image_eqI list.simps(9) set_map)
    then have "filter (\<lambda>e. Field' e = field) es = []" by (simp add: filter_empty_conv)
    with True show ?thesis by simp
  next
    case False
    with Cons show ?thesis by auto
  qed
qed

section \<open>Tokens and the registry: lemmas\<close>

lemma Split_not_Nil [simp]: "Split s sep \<noteq> []"
  by (induction s) (auto split: list.splits)

lemma Split_no_sep: "sep \<notin> set s \<Longrightarrow> Split s sep = [s]"
  by (induction s) auto

lemma Split_sep:
  "sep \<in> set s \<Longrightarrow>
     Split s sep =
       takeWhile (\<lambda>c. c \<noteq> sep) s # Split (tl (dropWhile (\<lambda>c. c \<noteq> sep) s)) sep"
  by (induction s) (auto split: list.splits)

lemma Split_length: "(length (Split s sep) > 1) = (sep \<in> set s)"
proof (cases "sep \<in> set s")
  case True
  then show ?thesis
    by (cases "Split (tl (dropWhile (\<lambda>c. c \<noteq> sep) s)) sep") (simp_all add: Split_sep)
next
  case False
  then show ?thesis by (simp add: Split_no_sep)
qed

lemma Split_first: "Split s sep ! 0 = takeWhile (\<lambda>c. c \<noteq> sep) s"
proof (cases "sep \<in> set s")
  case True
  then show ?thesis by (simp add: Split_sep)
next
  case False
  have a: "Split s sep = [s]" using False by (rule Split_no_sep)
  have b: "takeWhile (\<lambda>c. c \<noteq> sep) s = s" using False by auto
  show ?thesis unfolding a b by simp
qed

lemma Split_second:
  "sep \<in> set s \<Longrightarrow>
     Split s sep ! 1 = takeWhile (\<lambda>c. c \<noteq> sep) (tl (dropWhile (\<lambda>c. c \<noteq> sep) s))"
  using Split_first [of "tl (dropWhile (\<lambda>c. c \<noteq> sep) s)" sep]
  by (simp add: Split_sep)

lemma rule_parts_eq:
  "rule_parts rule =
     (if CHR '':'' \<in> set rule
      then (takeWhile (\<lambda>c. c \<noteq> CHR '':'') rule,
            takeWhile (\<lambda>c. c \<noteq> CHR '':'') (tl (dropWhile (\<lambda>c. c \<noteq> CHR '':'') rule)))
      else (rule, ''''))"
proof (cases "CHR '':'' \<in> set rule")
  case True
  then have "length (Split rule CHR '':'') > 1" by (simp only: Split_length)
  with True show ?thesis
    using Split_first [of rule "CHR '':''"] Split_second [OF True]
    by (simp add: rule_parts_def Let_def)
next
  case False
  then have "\<not> length (Split rule CHR '':'') > 1" by (simp only: Split_length) simp
  with False show ?thesis by (simp add: rule_parts_def Let_def)
qed

lemma ToUpper_ascii:
  "(of_char c :: nat) < 128 \<Longrightarrow> ToUpper c = [ascii_upper c]"
  by (simp add: ToUpper_def ascii_upper_def Let_def)

lemma registry_first_ascii:
  "c # cs \<in> set registry_names \<Longrightarrow> (of_char c :: nat) < 128 \<and> \<not> (97 \<le> (of_char c :: nat) \<and> (of_char c :: nat) \<le> 122)"
  by (auto simp: registry_names_def)

lemma ToUpper_resolves:
  "(ToUpper c @ cs \<in> set registry_names) = (ascii_upper c # cs \<in> set registry_names)"
proof (cases "(of_char c :: nat) < 128")
  case True
  then show ?thesis by (simp add: ToUpper_ascii)
next
  case False
  then have 1: "ToUpper c @ cs = CHR 0xEF # CHR 0xBF # CHR 0xBD # cs"
    by (simp add: ToUpper_def Let_def)
  from False have 2: "ascii_upper c = c" by (simp add: ascii_upper_def)
  have "CHR 0xEF # CHR 0xBF # CHR 0xBD # cs \<notin> set registry_names"
    using registry_first_ascii [of "CHR 0xEF" "CHR 0xBF # CHR 0xBD # cs"] by auto
  moreover have "c # cs \<notin> set registry_names"
    using registry_first_ascii [of c cs] False by auto
  ultimately show ?thesis by (simp add: 1 2)
qed

section \<open>The loop of parse: lemmas\<close>

lemma extends_refl: "extends K v v"
  by (simp add: extends_def)

lemma extends_trans: "extends K v v' \<Longrightarrow> extends K' v' v'' \<Longrightarrow> extends (K \<union> K') v v''"
  by (auto simp: extends_def)

lemma extends_mono: "extends K v v' \<Longrightarrow> K \<subseteq> K' \<Longrightarrow> extends K' v v'"
  by (auto simp: extends_def)

lemma extends_addErrors: "extends {key} v (addErrors v key rule val)"
  by (auto simp: extends_def fields_addErrors)

lemma extends_insertError: "extends {field} v (insertError v key field msg rule)"
  by (auto simp: extends_def fields_insertError)

lemma isVerifiable_data: "data v' = data v \<Longrightarrow> isVerifiable v' key rs = isVerifiable v key rs"
  by (simp add: isVerifiable_def)

lemma ucfirst_Inl: "(ucfirst s = Inl p) = (s = [] \<and> p = SliceBounds)"
  by (cases s) (auto simp: ucfirst_def)

lemma validateMap_Some: "(validateMap P name = Some f) = (name \<in> set registry_names \<and> f = P name)"
  by (auto simp: validateMap_def)

lemma validateMap_None: "(validateMap P name = None) = (name \<notin> set registry_names)"
  by (auto simp: validateMap_def)

lemma parse_rule_unresolved:
  "\<not> resolves rule \<Longrightarrow> parse_rule P v key rs rule = (Inl (token_panic rule), [])"
  by (cases "fst (rule_parts rule)")
     (auto simp: parse_rule_def resolves_def token_panic_def ucfirst_def validateMap_def
           split: prod.splits sum.splits option.splits)

lemma parse_rule_resolved:
  assumes "resolves rule"
  shows "\<exists>name. ucfirst (fst (rule_parts rule)) = Inr name \<and>
     parse_rule P v key rs rule =
       (if isVerifiable v key rs
        then (Inr (if token_passes P (data v) key rule then v
                   else addErrors v key (fst (rule_parts rule)) (index_slice (data v) key)),
              [Dispatch key name (index_slice (data v) key) (snd (rule_parts rule))])
        else (Inr v, []))"
  using assms
  by (auto simp: parse_rule_def resolves_def token_passes_def validateMap_def Let_def
           split: prod.splits sum.splits option.splits)

lemma parse_rule_extends:
  "parse_rule P v key rs rule = (Inr v', calls) \<Longrightarrow> extends {key} v v'"
proof (cases "resolves rule")
  case True
  assume a: "parse_rule P v key rs rule = (Inr v', calls)"
  from parse_rule_resolved [OF True, of P v key rs] a
  have "v' = v \<or> v' = addErrors v key (fst (rule_parts rule)) (index_slice (data v) key)"
    by (auto split: if_splits)
  then show ?thesis using extends_refl extends_addErrors by auto
next
  case False
  assume "parse_rule P v key rs rule = (Inr v', calls)"
  with parse_rule_unresolved [OF False, of P v key rs] show ?thesis by simp
qed

lemma parse_rule_calls:
  "parse_rule P v key rs rule = (r, calls) \<Longrightarrow>
     (\<forall>c\<in>set calls. \<exists>name val param. c = Dispatch key name val param) \<and>
     (\<not> isVerifiable v key rs \<longrightarrow> calls = [] \<and> (\<forall>v'. r = Inr v' \<longrightarrow> v' = v))"
proof (cases "resolves rule")
  case True
  assume a: "parse_rule P v key rs rule = (r, calls)"
  from parse_rule_resolved [OF True, of P v key rs] a show ?thesis
    by (auto split: if_splits)
next
  case False
  assume "parse_rule P v key rs rule = (r, calls)"
  with parse_rule_unresolved [OF False, of P v key rs] show ?thesis by auto
qed

lemma parse_loop_extends:
  "parse_loop P v key rs rest = (Inr v', calls) \<Longrightarrow> extends {key} v v'"
proof (induction rest arbitrary: v calls)
  case Nil
  then show ?case by (simp add: extends_refl)
next
  case (Cons rule rest)
  from Cons.prems obtain v1 c1 c2 where
    1: "parse_rule P v key rs rule = (Inr v1, c1)" and
    2: "parse_loop P v1 key rs rest = (Inr v', c2)"
    by (auto split: prod.splits sum.splits)
  from extends_trans [OF parse_rule_extends [OF 1] Cons.IH [OF 2]] show ?case by simp
qed

lemma parse_loop_calls:
  "parse_loop P v key rs rest = (r, calls) \<Longrightarrow>
     (\<forall>c\<in>set calls. \<exists>name val param. c = Dispatch key name val param) \<and>
     (\<not> isVerifiable v key rs \<longrightarrow> calls = [] \<and> (\<forall>v'. r = Inr v' \<longrightarrow> v' = v))"
proof (induction rest arbitrary: v r calls)
  case Nil
  then show ?case by auto
next
  case (Cons rule rest)
  obtain r1 c1 where 1: "parse_rule P v key rs rule = (r1, c1)" by (cases "parse_rule P v key rs rule")
  note pc = parse_rule_calls [OF 1]
  show ?case
  proof (cases r1)
    case (Inl p)
    with Cons.prems 1 have "r = Inl p" "calls = c1" by auto
    with pc show ?thesis by auto
  next
    case (Inr v1)
    obtain r2 c2 where 2: "parse_loop P v1 key rs rest = (r2, c2)"
      by (cases "parse_loop P v1 key rs rest")
    from Cons.prems 1 2 Inr have eq: "r = r2" "calls = c1 @ c2" by auto
    from parse_rule_extends 1 Inr have "data v1 = data v" by (auto simp: extends_def)
    then have iv: "isVerifiable v1 key rs = isVerifiable v key rs" by (rule isVerifiable_data)
    from Cons.IH [OF 2] pc iv Inr eq show ?thesis by auto
  qed
qed

lemma parse_loop_abort:
  "rule \<in> set rest \<Longrightarrow> \<not> resolves rule \<Longrightarrow> \<exists>p. fst (parse_loop P v key rs rest) = Inl p"
proof (induction rest arbitrary: v)
  case Nil
  then show ?case by simp
next
  case (Cons r rest)
  show ?case
  proof (cases "resolves r")
    case False
    then show ?thesis by (simp add: parse_rule_unresolved)
  next
    case True
    with Cons.prems have mem: "rule \<in> set rest" by auto
    obtain r1 c1 where 1: "parse_rule P v key rs r = (r1, c1)" by (cases "parse_rule P v key rs r")
    show ?thesis
    proof (cases r1)
      case (Inl p)
      with 1 show ?thesis by simp
    next
      case (Inr v1)
      from Cons.IH [OF mem Cons.prems(2), of v1] obtain p where "fst (parse_loop P v1 key rs rest) = Inl p" by blast
      with 1 Inr show ?thesis by (auto split: prod.splits)
    qed
  qed
qed

lemma parse_loop_panic:
  "fst (parse_loop P v key rs rest) = Inl p \<Longrightarrow>
     \<exists>rule\<in>set rest. \<not> resolves rule \<and> p = token_panic rule"
proof (induction rest arbitrary: v)
  case Nil
  then show ?case by simp
next
  case (Cons r rest)
  show ?case
  proof (cases "resolves r")
    case False
    with Cons.prems show ?thesis by (auto simp: parse_rule_unresolved)
  next
    case True
    from parse_rule_resolved [OF True, of P v key rs] obtain v1 c1 where
      1: "parse_rule P v key rs r = (Inr v1, c1)" by (auto split: if_splits)
    with Cons.prems have "fst (parse_loop P v1 key rs rest) = Inl p" by (auto split: prod.splits)
    from Cons.IH [OF this] show ?thesis by auto
  qed
qed

lemma parse_loop_pass:
  "\<forall>rule\<in>set rest. resolves rule \<and> (isVerifiable v key rs \<longrightarrow> token_passes P (data v) key rule) \<Longrightarrow>
     \<exists>calls. parse_loop P v key rs rest = (Inr v, calls)"
proof (induction rest)
  case Nil
  then show ?case by simp
next
  case (Cons r rest)
  then have res: "resolves r" and pass: "isVerifiable v key rs \<longrightarrow> token_passes P (data v) key r"
    by auto
  from parse_rule_resolved [OF res, of P v key rs] pass obtain c1 where
    1: "parse_rule P v key rs r = (Inr v, c1)" by (auto split: if_splits)
  from Cons obtain c2 where "parse_loop P v key rs rest = (Inr v, c2)" by auto
  with 1 show ?case by simp
qed

section \<open>The loops over maps: lemmas\<close>

lemma range_map_Nil [simp]: "range_map m [] = []"
  by (simp add: range_map_def List.map_filter_simps)

lemma range_map_Cons:
  "range_map m (k # ks) = (case m k of None \<Rightarrow> range_map m ks | Some x \<Rightarrow> (k, x) # range_map m ks)"
  by (simp add: range_map_def List.map_filter_simps split: option.splits)

lemma range_map_mem: "((k, x) \<in> set (range_map m ks)) = (k \<in> set ks \<and> m k = Some x)"
  by (induction ks) (auto simp: range_map_Cons split: option.splits)

lemma range_map_keys: "map fst (range_map m ks) = filter (\<lambda>k. m k \<noteq> None) ks"
  by (induction ks) (auto simp: range_map_Cons split: option.splits)

lemma range_map_order: "range_order m ks \<Longrightarrow> map fst (range_map m ks) = ks"
  by (auto simp: range_map_keys range_order_def filter_id_conv)

lemma range_map_empty: "range_map Map.empty ks = []"
  by (induction ks) (auto simp: range_map_Cons)

lemma run_loop_extends:
  "run_loop P v kvs = (Inr v', calls) \<Longrightarrow> extends (fst ` set kvs) v v'"
proof (induction kvs arbitrary: v calls)
  case Nil
  then show ?case by (simp add: extends_refl)
next
  case (Cons kv kvs)
  obtain key item where kv: "kv = (key, item)" by (cases kv)
  from Cons.prems kv obtain v1 c1 c2 where
    1: "parse_loop P v key item item = (Inr v1, c1)" and
    2: "run_loop P v1 kvs = (Inr v', c2)"
    by (auto simp: parse_def split: prod.splits sum.splits)
  from extends_trans [OF parse_loop_extends [OF 1] Cons.IH [OF 2]] kv show ?case by simp
qed

lemma run_loop_skip:
  assumes "run_loop P v kvs = (r, calls)"
    and "\<forall>toks. (field, toks) \<in> set kvs \<longrightarrow> \<not> isVerifiable v field toks"
    and "field \<notin> set (fields v)"
  shows "(\<forall>name val param. Dispatch field name val param \<notin> set calls) \<and>
         (\<forall>v'. r = Inr v' \<longrightarrow> field \<notin> set (fields v'))"
  using assms
proof (induction kvs arbitrary: v r calls)
  case Nil
  then show ?case by auto
next
  case (Cons kv kvs)
  obtain key item where kv: "kv = (key, item)" by (cases kv)
  obtain r1 c1 where 1: "parse_loop P v key item item = (r1, c1)"
    by (cases "parse_loop P v key item item")
  note pc = parse_loop_calls [OF 1]
  have c1: "\<forall>name val param. Dispatch field name val param \<notin> set c1"
  proof (cases "key = field")
    case True
    with Cons.prems(2) kv have "\<not> isVerifiable v key item" by auto
    with pc show ?thesis by simp
  next
    case False
    with pc show ?thesis by auto
  qed
  show ?case
  proof (cases r1)
    case (Inl p)
    with Cons.prems(1) 1 kv have "r = Inl p" "calls = c1" by (auto simp: parse_def)
    with c1 show ?thesis by simp
  next
    case (Inr v1)
    obtain r2 c2 where 2: "run_loop P v1 kvs = (r2, c2)" by (cases "run_loop P v1 kvs")
    from Cons.prems(1) 1 2 Inr kv have eq: "r = r2" "calls = c1 @ c2" by (auto simp: parse_def)
    from parse_loop_extends 1 Inr have ext: "extends {key} v v1" by blast
    then have d: "data v1 = data v" by (simp add: extends_def)
    have f1: "field \<notin> set (fields v1)"
    proof (cases "key = field")
      case True
      with Cons.prems(2) kv have "\<not> isVerifiable v key item" by auto
      with pc Inr have "v1 = v" by simp
      with Cons.prems(3) show ?thesis by simp
    next
      case False
      with ext Cons.prems(3) show ?thesis by (auto simp: extends_def)
    qed
    have nv: "\<forall>toks. (field, toks) \<in> set kvs \<longrightarrow> \<not> isVerifiable v1 field toks"
      using Cons.prems(2) isVerifiable_data [OF d] by simp
    from Cons.IH [OF 2 nv f1] c1 eq show ?thesis by auto
  qed
qed

lemma run_loop_abort:
  "(key, item) \<in> set kvs \<Longrightarrow> rule \<in> set item \<Longrightarrow> \<not> resolves rule \<Longrightarrow>
     \<exists>p. fst (run_loop P v kvs) = Inl p"
proof (induction kvs arbitrary: v)
  case Nil
  then show ?case by simp
next
  case (Cons kv kvs)
  obtain k i where kv: "kv = (k, i)" by (cases kv)
  obtain r1 c1 where 1: "parse_loop P v k i i = (r1, c1)" by (cases "parse_loop P v k i i")
  show ?case
  proof (cases r1)
    case (Inl p)
    with 1 kv show ?thesis by (simp add: parse_def)
  next
    case (Inr v1)
    have "(key, item) \<in> set kvs"
    proof (rule ccontr)
      assume "(key, item) \<notin> set kvs"
      with Cons.prems(1) kv have "k = key" "i = item" by auto
      with parse_loop_abort [OF Cons.prems(2,3), of P v key item] 1 Inr show False by simp
    qed
    from Cons.IH [OF this Cons.prems(2,3), of v1] obtain p where
      "fst (run_loop P v1 kvs) = Inl p" by blast
    with 1 Inr kv show ?thesis by (auto simp: parse_def split: prod.splits)
  qed
qed

lemma run_loop_panic:
  "fst (run_loop P v kvs) = Inl p \<Longrightarrow>
     \<exists>(key, item)\<in>set kvs. \<exists>rule\<in>set item. \<not> resolves rule \<and> p = token_panic rule"
proof (induction kvs arbitrary: v)
  case Nil
  then show ?case by simp
next
  case (Cons kv kvs)
  obtain k i where kv: "kv = (k, i)" by (cases kv)
  obtain r1 c1 where 1: "parse_loop P v k i i = (r1, c1)" by (cases "parse_loop P v k i i")
  show ?case
  proof (cases r1)
    case (Inl q)
    with Cons.prems 1 kv have "fst (parse_loop P v k i i) = Inl p" by (simp add: parse_def)
    from parse_loop_panic [OF this] kv show ?thesis by auto
  next
    case (Inr v1)
    with Cons.prems 1 kv have "fst (run_loop P v1 kvs) = Inl p"
      by (auto simp: parse_def split: prod.splits)
    from Cons.IH [OF this] show ?thesis by auto
  qed
qed

lemma run_loop_pass:
  "\<forall>(key, item)\<in>set kvs. \<forall>rule\<in>set item.
      resolves rule \<and> (isVerifiable v key item \<longrightarrow> token_passes P (data v) key rule) \<Longrightarrow>
     \<exists>calls. run_loop P v kvs = (Inr v, calls)"
proof (induction kvs)
  case Nil
  then show ?case by simp
next
  case (Cons kv kvs)
  obtain k i where kv: "kv = (k, i)" by (cases kv)
  with Cons.prems have
    "\<forall>rule\<in>set i. resolves rule \<and> (isVerifiable v k i \<longrightarrow> token_passes P (data v) k rule)"
    by auto
  from parse_loop_pass [OF this] obtain c1 where 1: "parse_loop P v k i i = (Inr v, c1)" by blast
  from Cons obtain c2 where "run_loop P v kvs = (Inr v, c2)" by auto
  with 1 kv show ?case by (simp add: parse_def)
qed

lemma missingCheck_loop_extends:
  "extends (fst ` set kvs) v (missingCheck_loop v d kvs)"
proof (induction kvs arbitrary: v)
  case Nil
  then show ?case by (simp add: extends_refl)
next
  case (Cons kv kvs)
  obtain k i where kv: "kv = (k, i)" by (cases kv)
  show ?case
  proof (cases "\<not> inArray i ''nullable'' \<and> d k = None")
    case True
    from extends_trans [OF extends_insertError Cons.IH] True kv show ?thesis
      by (simp del: inArray.simps)
  next
    case False
    from extends_mono [OF Cons.IH [of v]] False kv show ?thesis by auto
  qed
qed

lemma missingCheck_loop_none:
  "\<forall>(key, item)\<in>set kvs. ''nullable'' \<in> set item \<or> d key \<noteq> None \<Longrightarrow>
     missingCheck_loop v d kvs = v"
  by (induction kvs) (auto simp: inArray_set)

lemma missingCheck_loop_skip:
  "field \<notin> set (fields v) \<Longrightarrow>
   \<forall>item. (field, item) \<in> set kvs \<longrightarrow> ''nullable'' \<in> set item \<or> d field \<noteq> None \<Longrightarrow>
     field \<notin> set (fields (missingCheck_loop v d kvs))"
proof (induction kvs arbitrary: v)
  case Nil
  then show ?case by simp
next
  case (Cons kv kvs)
  obtain k i where kv: "kv = (k, i)" by (cases kv)
  show ?case
  proof (cases "\<not> inArray i ''nullable'' \<and> d k = None")
    case True
    with Cons.prems(2) kv have "k \<noteq> field" by (auto simp: inArray_set)
    with Cons.prems(1) have "field \<notin> set (fields (insertError v ''def'' k (''the param '' @ k @ '' not valid!'') ''no''))"
      by (simp add: fields_insertError)
    from Cons.IH [OF this] Cons.prems(2) True kv show ?thesis by (simp del: inArray.simps)
  next
    case False
    from Cons.IH [OF Cons.prems(1)] Cons.prems(2) False kv show ?thesis by auto
  qed
qed

lemma missingCheck_loop_entries:
  "distinct (map fst kvs) \<Longrightarrow> set (map fst kvs) \<inter> set (fields v) = {} \<Longrightarrow>
     entries (missingCheck_loop v d kvs) =
       entries v @
       map (\<lambda>kv. missing_entry (fst kv))
         (filter (\<lambda>kv. ''nullable'' \<notin> set (snd kv) \<and> d (fst kv) = None) kvs)"
proof (induction kvs arbitrary: v)
  case Nil
  then show ?case by simp
next
  case (Cons kv kvs)
  obtain k i where kv: "kv = (k, i)" by (cases kv)
  from Cons.prems kv have dk: "distinct (map fst kvs)" and knew: "k \<notin> set (fields v)"
    and kk: "k \<notin> set (map fst kvs)" and dis: "set (map fst kvs) \<inter> set (fields v) = {}"
    by auto
  show ?case
  proof (cases "\<not> inArray i ''nullable'' \<and> d k = None")
    case True
    let ?v1 = "insertError v ''def'' k (''the param '' @ k @ '' not valid!'') ''no''"
    have e1: "entries ?v1 = entries v @ [missing_entry k]"
      using entries_insertError_absent [OF knew] by (simp add: entries_def missing_entry_def)
    have "set (map fst kvs) \<inter> set (fields ?v1) = {}"
      using dis kk knew by (auto simp: fields_insertError)
    from Cons.IH [OF dk this] True kv e1 show ?thesis
      by (simp add: inArray_set del: inArray.simps)
  next
    case False
    from Cons.IH [OF dk dis] False kv show ?thesis by (auto simp: inArray_set)
  qed
qed

lemma addMessage_frame [simp]:
  "data (addMessage v field rule message) = data v"
  "rules (addMessage v field rule message) = rules v"
  "ValidErrors (addMessage v field rule message) = ValidErrors v"
  by (auto simp: addMessage_def Let_def split: option.splits)

lemma parseMessage_loop_frame:
  "parseMessage_loop P v kvs = Inr v' \<Longrightarrow>
     data v' = data v \<and> rules v' = rules v \<and> ValidErrors v' = ValidErrors v"
proof (induction kvs arbitrary: v)
  case Nil
  then show ?case by simp
next
  case (Cons kv kvs)
  obtain k i where kv: "kv = (k, i)" by (cases kv)
  from Cons.prems kv obtain v1 where
    "parseMessage_loop P v1 kvs = Inr v'" and
    "data v1 = data v \<and> rules v1 = rules v \<and> ValidErrors v1 = ValidErrors v"
    by (auto simp: Let_def split: if_splits sum.splits)
  with Cons.IH [of v1] show ?case by simp
qed

lemma parseMessage_loop_panic:
  "parseMessage_loop P v kvs = Inl p \<Longrightarrow> p = SliceBounds"
proof (induction kvs arbitrary: v)
  case Nil
  then show ?case by simp
next
  case (Cons kv kvs)
  obtain k i where kv: "kv = (k, i)" by (cases kv)
  from Cons.prems kv Cons.IH show ?case
    by (auto simp: Let_def ucfirst_Inl split: if_splits sum.splits)
qed

lemma parseMessage_loop_abort:
  "(key, item) \<in> set kvs \<Longrightarrow> bad_message_key key \<Longrightarrow> parseMessage_loop P v kvs = Inl SliceBounds"
proof (induction kvs arbitrary: v)
  case Nil
  then show ?case by simp
next
  case (Cons kv kvs)
  obtain k i where kv: "kv = (k, i)" by (cases kv)
  show ?case
  proof (cases "bad_message_key k")
    case True
    with kv show ?thesis by (simp add: bad_message_key_def Let_def ucfirst_def)
  next
    case False
    with Cons.prems kv have mem: "(key, item) \<in> set kvs" by auto
    note ih = Cons.IH [OF mem Cons.prems(2)]
    from False kv ih show ?thesis
      by (cases "ucfirst (Split k CHR ''.'' ! 1)")
         (auto simp: Let_def ucfirst_Inl bad_message_key_def)
  qed
qed

lemma parseMessage_loop_total:
  "\<forall>(key, item)\<in>set kvs. \<not> bad_message_key key \<Longrightarrow> \<exists>v'. parseMessage_loop P v kvs = Inr v'"
proof (induction kvs arbitrary: v)
  case Nil
  then show ?case by simp
next
  case (Cons kv kvs)
  obtain k i where kv: "kv = (k, i)" by (cases kv)
  with Cons.prems have nb: "\<not> bad_message_key k" and rest: "\<forall>(key, item)\<in>set kvs. \<not> bad_message_key key"
    by auto
  note ih = Cons.IH [OF rest]
  from nb kv ih show ?case
    by (cases "ucfirst (Split k CHR ''.'' ! 1)")
       (auto simp: Let_def ucfirst_Inl bad_message_key_def)
qed

section \<open>Rule normalisation: the claim\<close>

text \<open>
  C9: a rules input outside the accepted shapes is said to abort with a configuration
  error and never to be dropped silently. A \<open>map[string]interface{}\<close> whose element
  \<open>"a"\<close> is neither a string nor a \<open>[]string\<close> (an integer, say) is such an input
  for that field, and \<open>formatRules\<close> returns normally: the field \<open>"a"\<close> has no entry
  in the normalised rules, the field \<open>"b"\<close> keeps its token list, and no panic is raised.
\<close>

theorem formatRules_drops_untyped_element:
  "\<exists>fmt. formatRules (MapInterface [''a'' \<mapsto> DynOther, ''b'' \<mapsto> DynString ''required'']) = Inr fmt
         \<and> fmt ''a'' = None \<and> fmt ''b'' = Some [''required'']"
  by (simp add: formatRules_def)

section \<open>Custom messages on a failure: the claim\<close>

text \<open>
  C3: when a field has a field-wide default override (key \<open>"def"\<close> of its custom
  message table), a rule failure recorded for the field by \<open>addErrors\<close> leaves the
  override message under key \<open>"def"\<close>, also when the failing rule has an override of
  its own; and it leaves, under the rule's name, the rule's override if there is one and
  otherwise the generated message \<open>"the field <F> not valid in <R>"\<close>. Both keys are in
  the one entry of the field: if no field had two entries before, the field has exactly
  one afterwards.
\<close>

theorem def_override_recorded_beside_rule_entry:
  assumes "customMsg v = Some cm" and "cm field = Some custom" and "custom ''def'' = Some msg"
    and "distinct (fields v)"
  shows "recorded (addErrors v field rule val) field ''def'' = Some msg \<and>
         recorded (addErrors v field rule val) field rule =
           Some (case custom rule of
                   Some fieldMsg \<Rightarrow> fieldMsg
                 | None \<Rightarrow> ''the field '' @ field @ '' not valid in '' @ rule) \<and>
         length (filter (\<lambda>e. Field' e = field) (entries (addErrors v field rule val))) = 1"
proof -
  have f: "fields (addErrors v field rule val) =
      (if field \<in> set (fields v) then fields v else fields v @ [field])"
    by (rule fields_addErrors)
  from f assms(4) have d: "distinct (map Field' (entries (addErrors v field rule val)))"
    by (simp add: fields_def split: if_splits)
  from f have "field \<in> set (fields (addErrors v field rule val))"
    by (simp split: if_splits)
  then have m: "field \<in> Field' ` set (entries (addErrors v field rule val))"
    by (simp add: fields_def)
  from single_entry [OF d m] recorded_addErrors_def_override [OF assms(1-3)]
  show ?thesis by simp
qed

text \<open>The theorem at a field with both overrides, on the failure of rule \<open>min\<close>.\<close>

theorem def_override_recorded_beside_rule_entry_witness:
  "recorded (addErrors
       \<lparr>data = Map.empty, rules = Map.empty,
        customMsg = Some [''age'' \<mapsto> [''def'' \<mapsto> ''bad age'', ''min'' \<mapsto> ''too small'']],
        ValidErrors = None\<rparr> ''age'' ''min'' None) ''age'' ''def'' = Some ''bad age'' \<and>
   recorded (addErrors
       \<lparr>data = Map.empty, rules = Map.empty,
        customMsg = Some [''age'' \<mapsto> [''def'' \<mapsto> ''bad age'', ''min'' \<mapsto> ''too small'']],
        ValidErrors = None\<rparr> ''age'' ''min'' None) ''age'' ''min'' = Some ''too small'' \<and>
   length (filter (\<lambda>e. Field' e = ''age'') (entries (addErrors
       \<lparr>data = Map.empty, rules = Map.empty,
        customMsg = Some [''age'' \<mapsto> [''def'' \<mapsto> ''bad age'', ''min'' \<mapsto> ''too small'']],
        ValidErrors = None\<rparr> ''age'' ''min'' None))) = 1"
  using def_override_recorded_beside_rule_entry
    [where v = "\<lparr>data = Map.empty, rules = Map.empty,
        customMsg = Some [''age'' \<mapsto> [''def'' \<mapsto> ''bad age'', ''min'' \<mapsto> ''too small'']],
        ValidErrors = None\<rparr>"
     and cm = "[''age'' \<mapsto> [''def'' \<mapsto> ''bad age'', ''min'' \<mapsto> ''too small'']]"
     and field = "''age''" and custom = "[''def'' \<mapsto> ''bad age'', ''min'' \<mapsto> ''too small'']"
     and msg = "''bad age''" and rule = "''min''" and val = None]
  by (simp add: fields_def entries_def)

section \<open>Rule name and parameter of a token: the claim\<close>

text \<open>
  C5, as the code has it: for a token with a colon the rule name is the text before the
  first colon and the parameter is the text between the first colon and the second (up
  to the end of the token when there is no second colon), not the whole remainder; a
  token with no colon is the rule name itself, with the empty parameter. When the token
  resolves and the field is to be verified, the predicate is called once, with that
  parameter.
\<close>

theorem parameter_is_second_segment:
  assumes "resolves rule" and "isVerifiable v key rs"
  shows "rule_parts rule =
           (if CHR '':'' \<in> set rule
            then (takeWhile (\<lambda>c. c \<noteq> CHR '':'') rule,
                  takeWhile (\<lambda>c. c \<noteq> CHR '':'') (tl (dropWhile (\<lambda>c. c \<noteq> CHR '':'') rule)))
            else (rule, '''')) \<and>
         (\<exists>name. ucfirst (fst (rule_parts rule)) = Inr name \<and>
            snd (parse_rule P v key rs rule) =
              [Dispatch key name (index_slice (data v) key) (snd (rule_parts rule))])"
  using parse_rule_resolved [OF assms(1), of P v key rs] assms(2) rule_parts_eq [of rule]
  by auto

text \<open>The theorem at the token \<open>max:10:x\<close>.\<close>

theorem parameter_is_second_segment_witness:
  "rule_parts ''max:10:x'' = (''max'', ''10'') \<and>
   (\<exists>name. ucfirst ''max'' = Inr name \<and>
      snd (parse_rule (\<lambda>name val param. True)
             \<lparr>data = [''n'' \<mapsto> Some [''7'']], rules = [''n'' \<mapsto> [''max:10:x'']],
              customMsg = None, ValidErrors = None\<rparr> ''n'' [''max:10:x''] ''max:10:x'') =
        [Dispatch ''n'' name (Some [''7'']) ''10''])"
  using parameter_is_second_segment
    [where rule = "''max:10:x''" and key = "''n''" and rs = "[''max:10:x'']"
       and P = "\<lambda>name val param. True"
       and v = "\<lparr>data = [''n'' \<mapsto> Some [''7'']], rules = [''n'' \<mapsto> [''max:10:x'']],
              customMsg = None, ValidErrors = None\<rparr>"]
  by (simp add: resolves_def rule_parts_def ucfirst_def ToUpper_def char_of_eq_iff
        registry_names_def isVerifiable_def index_slice_def)

text \<open>
  The token \<open>in:a:b\<close>: the predicate \<open>In\<close> is called with the parameter \<open>a\<close>, not
  with \<open>a:b\<close>.
\<close>

theorem parameter_drops_text_after_second_colon:
  "parse_rule (\<lambda>name val param. True)
     \<lparr>data = [''f'' \<mapsto> Some [''a'']], rules = [''f'' \<mapsto> [''in:a:b'']],
      customMsg = None, ValidErrors = None\<rparr> ''f'' [''in:a:b''] ''in:a:b'' =
   (Inr \<lparr>data = [''f'' \<mapsto> Some [''a'']], rules = [''f'' \<mapsto> [''in:a:b'']],
      customMsg = None, ValidErrors = None\<rparr>,
    [Dispatch ''f'' ''In'' (Some [''a'']) ''a''])"
  by (simp add: parse_rule_def rule_parts_def ucfirst_def ToUpper_def char_of_eq_iff
        validateMap_def registry_names_def isVerifiable_def index_slice_def)

end
